theory Spec2Isabelle
  imports Main
begin

section \<open>Package ordered: an insertion-ordered map with a JSON codec\<close>

subsection \<open>Values\<close>

text \<open>
  The map stores Go values of type \<open>interface{}\<close>. The embedding covers the nil interface,
  \<open>bool\<close>, \<open>string\<close> (a byte sequence), \<open>json.Number\<close> (a string type holding the literal),
  \<open>int\<close>, a channel (identified by its address; it stands for the kinds that
  \<open>json.Marshal\<close> does not support), a non-nil \<open>[]interface{}\<close> and a non-nil \<open>*Map\<close>. A nested \<open>*Map\<close> is held by the sequence of key/value pairs that
  a forward traversal of it yields; nested maps are values here, not shared references.
\<close>

datatype val =
    VNil
  | VBool bool
  | VString string
  | VNumber string
  | VInt int
  | VChan nat
  | VArr "val list"
  | VMap "(string \<times> val) list"

text \<open>\<open>type KVPair struct { Key string; Value interface{} }\<close>; a \<open>*KVPair\<close> is an option.\<close>

type_synonym KVPair = "string \<times> val"

subsection \<open>container/list as the map uses it\<close>

text \<open>
  The map only ever appends to its list and removes from it. The list is modelled by
  the sequence of all elements ever pushed, in allocation order, each with its \<open>Value\<close> and
  a flag telling whether it is still linked (\<open>e.list != nil\<close>). An \<open>*Element\<close> is the
  allocation index of the element together with its \<open>Value\<close>, which never changes. The
  linked elements, in sequence order, are the list as Go sees it; \<open>Remove\<close> unlinks an
  element and clears its \<open>next\<close>, \<open>prev\<close> and \<open>list\<close> fields, so \<open>Next\<close> and \<open>Prev\<close> of a
  removed element are nil.
\<close>

type_synonym Element = "nat \<times> string"
type_synonym List = "(string \<times> bool) list"

definition linked :: "List \<Rightarrow> nat \<Rightarrow> bool" where
  "linked lst i = (i < length lst \<and> snd (lst ! i))"

definition elem_at :: "List \<Rightarrow> nat \<Rightarrow> Element" where
  "elem_at lst i = (i, fst (lst ! i))"

definition Front :: "List \<Rightarrow> Element option" where
  "Front lst = map_option (elem_at lst) (List.find (linked lst) [0..<length lst])"


definition Next :: "List \<Rightarrow> Element \<Rightarrow> Element option" where
  "Next lst e =
     (if linked lst (fst e)
      then map_option (elem_at lst) (List.find (linked lst) [Suc (fst e)..<length lst])
      else None)"

definition Prev :: "List \<Rightarrow> Element \<Rightarrow> Element option" where
  "Prev lst e =
     (if linked lst (fst e)
      then map_option (elem_at lst) (List.find (linked lst) (rev [0..<fst e]))
      else None)"

definition PushBack :: "List \<Rightarrow> string \<Rightarrow> List \<times> Element" where
  "PushBack lst v = (lst @ [(v, True)], (length lst, v))"

definition Remove :: "List \<Rightarrow> Element \<Rightarrow> List" where
  "Remove lst e = (if linked lst (fst e) then lst[fst e := (fst (lst ! fst e), False)] else lst)"

definition list_Len :: "List \<Rightarrow> nat" where
  "list_Len lst = length (filter snd lst)"

subsection \<open>The map\<close>

text \<open>
  \<open>type Map struct { mu sync.RWMutex; m map[string]interface{}; l *list.List;
  keys map[string]*list.Element }\<close>. The lock is left out: every operation is modelled
  as it runs alone.
\<close>

record Map =
  m :: "string \<rightharpoonup> val"
  l :: List
  keys :: "string \<rightharpoonup> Element"

definition NewMap :: Map where
  "NewMap = \<lparr>m = Map.empty, l = [], keys = Map.empty\<rparr>"

definition Set :: "Map \<Rightarrow> string \<Rightarrow> val \<Rightarrow> Map" where
  "Set om key value =
     (let om1 = (if m om key = None
                 then (let (l', e) = PushBack (l om) key
                       in om\<lparr>l := l', keys := (keys om)(key \<mapsto> e)\<rparr>)
                 else om)
      in om1\<lparr>m := (m om1)(key \<mapsto> value)\<rparr>)"

definition NewMapFromKVPairs :: "KVPair list \<Rightarrow> Map" where
  "NewMapFromKVPairs pairs = foldl (\<lambda>om pair. Set om (fst pair) (snd pair)) NewMap pairs"

definition Has :: "Map \<Rightarrow> string \<Rightarrow> bool" where
  "Has om key = (m om key \<noteq> None)"

definition Get :: "Map \<Rightarrow> string \<Rightarrow> val" where
  "Get om key = (case m om key of None \<Rightarrow> VNil | Some value \<Rightarrow> value)"

definition GetValue :: "Map \<Rightarrow> string \<Rightarrow> val \<times> bool" where
  "GetValue om key = (case m om key of None \<Rightarrow> (VNil, False) | Some value \<Rightarrow> (value, True))"

datatype panic = NilPointerDereference

text \<open>
  \<open>Delete\<close> passes \<open>om.keys[key]\<close> to \<open>Remove\<close>, which reads \<open>e.list\<close>: a key that is in
  \<open>m\<close> and not in \<open>keys\<close> would make it dereference nil.
\<close>

definition Delete :: "Map \<Rightarrow> string \<Rightarrow> panic + ((val \<times> bool) \<times> Map)" where
  "Delete om key =
     (case m om key of
        None \<Rightarrow> Inr ((VNil, False), om)
      | Some value \<Rightarrow>
          (case keys om key of
             None \<Rightarrow> Inl NilPointerDereference
           | Some e \<Rightarrow>
               Inr ((value, True),
                    om\<lparr>l := Remove (l om) e, keys := (keys om)(key := None),
                       m := (m om)(key := None)\<rparr>)))"

definition Len :: "Map \<Rightarrow> nat" where
  "Len om = list_Len (l om)"

subsection \<open>Traversal\<close>

text \<open>
  \<open>EntriesIter\<close> returns a closure over the map and a cursor \<open>e\<close>, first \<open>om.l.Front()\<close>.
  The closure is modelled by its cursor and by \<open>iter_next\<close>, one call of it on the map as
  it is at that moment: it reads \<open>e.Value\<close>, moves \<open>e\<close> to \<open>e.Next()\<close> and looks the key up
  in \<open>om.m\<close>.
\<close>

definition EntriesIter :: "Map \<Rightarrow> Element option" where
  "EntriesIter om = Front (l om)"

definition iter_next :: "Map \<Rightarrow> Element option \<Rightarrow> KVPair option \<times> Element option" where
  "iter_next om e =
     (case e of
        None \<Rightarrow> (None, None)
      | Some el \<Rightarrow> (Some (snd el, Get om (snd el)), Next (l om) el))"


definition reverse_iter_next :: "Map \<Rightarrow> Element option \<Rightarrow> KVPair option \<times> Element option" where
  "reverse_iter_next om e =
     (case e of
        None \<Rightarrow> (None, None)
      | Some el \<Rightarrow> (Some (snd el, Get om (snd el)), Prev (l om) el))"

lemma find_upt_None:
  "List.find (linked lst) [i..<length lst] = None \<Longrightarrow> filter snd (drop i lst) = []"
  apply (clarsimp simp: find_None_iff linked_def filter_empty_conv in_set_conv_nth)
  apply (drule_tac x="i + ia" in spec)
  by auto

lemma find_upt_Some:
  assumes "List.find (linked lst) [i..<length lst] = Some j"
  shows "i \<le> j \<and> j < length lst \<and> snd (lst ! j) \<and>
         filter snd (drop i lst) = lst ! j # filter snd (drop (Suc j) lst)"
proof -
  from assms obtain n where n: "n < length [i..<length lst]" "linked lst ([i..<length lst] ! n)"
     "j = [i..<length lst] ! n" "\<forall>k<n. \<not> linked lst ([i..<length lst] ! k)"
    by (auto simp: find_Some_iff)
  then have j: "j = i + n" "i + n < length lst" by auto
  have nl: "\<forall>k<n. \<not> snd (lst ! (i + k))" using n j by (auto simp: linked_def)
  have "drop i lst = take n (drop i lst) @ lst ! j # drop (Suc j) lst"
    using j by (metis Cons_nth_drop_Suc add.commute append_take_drop_id drop_drop)
  moreover have "filter snd (take n (drop i lst)) = []"
    using nl j by (fastforce simp: filter_empty_conv in_set_conv_nth)
  moreover have "snd (lst ! j)" using n by (simp add: linked_def)
  ultimately show ?thesis using j
    by (metis append_Nil filter.simps(2) filter_append le_add1)
qed

lemma Next_Some:
  "Next lst e = Some e' \<Longrightarrow> fst e < fst e' \<and> fst e' < length lst"
  by (auto simp: Next_def elem_at_def split: if_splits dest!: find_upt_Some)

text \<open>A cursor run until it returns \<open>nil, false\<close>, on a map that does not change meanwhile.\<close>

function drain :: "Map \<Rightarrow> Element option \<Rightarrow> KVPair list" where
  "drain om e =
     (case iter_next om e of
        (None, _) \<Rightarrow> []
      | (Some pair, e') \<Rightarrow> pair # drain om e')"
  by pat_completeness auto
termination
  by (relation "measure (\<lambda>(om, e). case e of None \<Rightarrow> 0 | Some el \<Rightarrow> Suc (length (l om) - fst el))")
     (auto simp: iter_next_def split: option.splits dest!: Next_Some)

declare drain.simps [simp del]

definition Entries :: "Map \<Rightarrow> KVPair list" where
  "Entries om = drain om (EntriesIter om)"


text \<open>The order sequence: the keys of the linked elements, front to back.\<close>

definition order :: "Map \<Rightarrow> string list" where
  "order om = map fst (filter snd (l om))"

lemma drain_None [simp]: "drain om None = []"
  by (simp add: drain.simps iter_next_def)

lemma drain_Some: "drain om (Some el) = (snd el, Get om (snd el)) # drain om (Next (l om) el)"
  by (simp add: drain.simps iter_next_def)

lemma drain_from:
  "drain om (map_option (elem_at (l om)) (List.find (linked (l om)) [i..<length (l om)]))
     = map (\<lambda>k. (k, Get om k)) (map fst (filter snd (drop i (l om))))"
proof (induction "length (l om) - i" arbitrary: i rule: less_induct)
  case less
  show ?case
  proof (cases "List.find (linked (l om)) [i..<length (l om)]")
    case None
    then show ?thesis by (simp add: find_upt_None)
  next
    case (Some j)
    note f = find_upt_Some[OF Some]
    have lk: "linked (l om) j" using f by (simp add: linked_def)
    have "drain om (Some (elem_at (l om) j)) =
            (fst (l om ! j), Get om (fst (l om ! j))) #
            drain om (map_option (elem_at (l om)) (List.find (linked (l om)) [Suc j..<length (l om)]))"
      using lk by (simp add: drain_Some Next_def elem_at_def)
    also have "drain om (map_option (elem_at (l om)) (List.find (linked (l om)) [Suc j..<length (l om)]))
        = map (\<lambda>k. (k, Get om k)) (map fst (filter snd (drop (Suc j) (l om))))"
      using f by (intro less) auto
    finally show ?thesis using Some f by simp
  qed
qed

lemma Entries_order: "Entries om = map (\<lambda>k. (k, Get om k)) (order om)"
  using drain_from[of om 0] by (simp add: Entries_def EntriesIter_def Front_def order_def)

lemma Len_Entries: "Len om = length (Entries om)"
  by (simp add: Entries_order Len_def list_Len_def order_def)

lemma iter_next_drain:
  "iter_next om e = (p, e') \<Longrightarrow> drain om e = (case p of None \<Rightarrow> [] | Some pair \<Rightarrow> pair # drain om e')"
  by (cases e) (auto simp: iter_next_def drain.simps)

subsection \<open>Equality\<close>

text \<open>
  \<open>reflect.DeepEqual\<close> on the values of the embedding. Values of different dynamic
  types are never equal (a \<open>json.Number\<close> is not a \<open>string\<close> and not an \<open>int\<close>);
  channels compare by address; slices by length and elements; two \<open>*Map\<close> by the
  structs they point to, which for maps built by this package comes to the same keys in
  the same order with deeply equal values.
\<close>

fun DeepEqual :: "val \<Rightarrow> val \<Rightarrow> bool"
  and DeepEqual_slice :: "val list \<Rightarrow> val list \<Rightarrow> bool"
  and DeepEqual_entries :: "(string \<times> val) list \<Rightarrow> (string \<times> val) list \<Rightarrow> bool" where
  "DeepEqual VNil VNil = True"
| "DeepEqual (VBool a) (VBool b) = (a = b)"
| "DeepEqual (VString a) (VString b) = (a = b)"
| "DeepEqual (VNumber a) (VNumber b) = (a = b)"
| "DeepEqual (VInt a) (VInt b) = (a = b)"
| "DeepEqual (VChan a) (VChan b) = (a = b)"
| "DeepEqual (VArr xs) (VArr ys) = DeepEqual_slice xs ys"
| "DeepEqual (VMap es) (VMap fs) = DeepEqual_entries es fs"
| "DeepEqual _ _ = False"
| "DeepEqual_slice [] [] = True"
| "DeepEqual_slice (x # xs) (y # ys) = (DeepEqual x y \<and> DeepEqual_slice xs ys)"
| "DeepEqual_slice _ _ = False"
| "DeepEqual_entries [] [] = True"
| "DeepEqual_entries (p # es) (q # fs) =
     (fst p = fst q \<and> DeepEqual (snd p) (snd q) \<and> DeepEqual_entries es fs)"
| "DeepEqual_entries _ _ = False"

fun KVPair_Equal :: "KVPair option \<Rightarrow> KVPair option \<Rightarrow> bool" where
  "KVPair_Equal None None = True"
| "KVPair_Equal (Some p) (Some other) = (fst p = fst other \<and> DeepEqual (snd p) (snd other))"
| "KVPair_Equal _ _ = False"

function Equal_loop :: "Map \<Rightarrow> Map \<Rightarrow> Element option \<Rightarrow> Element option \<Rightarrow> bool" where
  "Equal_loop om other iterA iterB =
     (case iter_next om iterA of
        (None, _) \<Rightarrow> True
      | (Some pairA, iterA') \<Rightarrow>
          (case iter_next other iterB of
             (pairB, iterB') \<Rightarrow>
               if \<not> KVPair_Equal (Some pairA) pairB then False
               else Equal_loop om other iterA' iterB'))"
  by pat_completeness auto
termination
  by (relation "measure (\<lambda>(om, other, e, e2). case e of None \<Rightarrow> 0 | Some el \<Rightarrow> Suc (length (l om) - fst el))")
     (auto simp: iter_next_def split: option.splits dest!: Next_Some)

declare Equal_loop.simps [simp del]

text \<open>A \<open>*Map\<close> that may be nil is an option.\<close>

fun Equal :: "Map option \<Rightarrow> Map option \<Rightarrow> bool" where
  "Equal None None = True"
| "Equal (Some om) (Some other) =
     (if Len om \<noteq> Len other then False
      else Equal_loop om other (EntriesIter om) (EntriesIter other))"
| "Equal _ _ = False"

lemma iter_next_None: "iter_next om e = (None, e') \<longleftrightarrow> e = None \<and> e' = None"
  by (cases e) (auto simp: iter_next_def)

lemma Equal_loop_drain:
  "length (drain om iterA) = length (drain other iterB) \<Longrightarrow>
   Equal_loop om other iterA iterB =
     list_all2 (\<lambda>p q. KVPair_Equal (Some p) (Some q)) (drain om iterA) (drain other iterB)"
proof (induction om other iterA iterB rule: Equal_loop.induct)
  case (1 om other iterA iterB)
  show ?case
  proof (cases "iter_next om iterA")
    case (Pair pA iterA')
    show ?thesis
    proof (cases pA)
      case None
      then show ?thesis using Pair 1(2) iter_next_drain[OF Pair]
        by (subst Equal_loop.simps) simp
    next
      case (Some pairA)
      obtain pB iterB' where B: "iter_next other iterB = (pB, iterB')" by force
      have dA: "drain om iterA = pairA # drain om iterA'"
        using iter_next_drain[OF Pair] Some by simp
      with 1(2) iter_next_drain[OF B] obtain pairB where pB: "pB = Some pairB"
        by (cases pB) auto
      have dB: "drain other iterB = pairB # drain other iterB'"
        using iter_next_drain[OF B] pB by simp
      show ?thesis
      proof (cases "KVPair_Equal (Some pairA) (Some pairB)")
        case False
        then show ?thesis using Pair Some B pB dA dB
          by (subst Equal_loop.simps) (simp del: KVPair_Equal.simps)
      next
        case True
        have "Equal_loop om other iterA' iterB' =
              list_all2 (\<lambda>p q. KVPair_Equal (Some p) (Some q)) (drain om iterA') (drain other iterB')"
          using 1(1)[OF Pair[symmetric] Some B[symmetric]] True pB 1(2) dA dB
          by (simp del: KVPair_Equal.simps)
        then show ?thesis using Pair Some B pB dA dB True
          by (subst Equal_loop.simps) (simp del: KVPair_Equal.simps)
      qed
    qed
  qed
qed


subsection \<open>Insertion order\<close>

lemma m_Set [simp]: "m (Set om k v) = (m om)(k \<mapsto> v)"
  by (simp add: Set_def PushBack_def Let_def)

lemma l_Set: "l (Set om k v) = (if m om k = None then l om @ [(k, True)] else l om)"
  by (simp add: Set_def PushBack_def Let_def)

lemma keys_Set:
  "keys (Set om k v) = (if m om k = None then (keys om)(k \<mapsto> (length (l om), k)) else keys om)"
  by (simp add: Set_def PushBack_def Let_def)

lemma order_Set: "order (Set om k v) = (if m om k = None then order om @ [k] else order om)"
  by (simp add: order_def l_Set)

lemma Get_Set: "Get (Set om k v) k' = (if k' = k then v else Get om k')"
  by (simp add: Get_def)

lemma Entries_Set_present:
  "m om k \<noteq> None \<Longrightarrow>
   Entries (Set om k v) = map (\<lambda>p. if fst p = k then (k, v) else p) (Entries om)"
  by (auto simp: Entries_order order_Set Get_Set)

lemma Entries_Set_absent:
  "m om k = None \<Longrightarrow> k \<notin> set (order om) \<Longrightarrow> Entries (Set om k v) = Entries om @ [(k, v)]"
  by (auto simp: Entries_order order_Set Get_Set)

lemma map_fst_Entries: "map fst (Entries om) = order om"
  by (simp add: Entries_order comp_def)

lemma dom_m_foldl_Set:
  "dom (m (foldl (\<lambda>om pair. Set om (fst pair) (snd pair)) om ps)) = dom (m om) \<union> fst ` set ps"
  by (induction ps arbitrary: om) auto

lemma Entries_foldl_Set_fresh:
  "distinct (map fst ps) \<Longrightarrow>
   Entries (foldl (\<lambda>om pair. Set om (fst pair) (snd pair)) NewMap ps) = ps"
proof (induction ps rule: rev_induct)
  case Nil
  show ?case by (simp add: Entries_order order_def NewMap_def)
next
  case (snoc p ps)
  let ?om = "foldl (\<lambda>om pair. Set om (fst pair) (snd pair)) NewMap ps"
  have E: "Entries ?om = ps" using snoc by simp
  have "fst p \<notin> dom (m ?om)" using snoc.prems by (simp add: dom_m_foldl_Set NewMap_def)
  then have a: "m ?om (fst p) = None" by blast
  have "order ?om = map fst ps" using E map_fst_Entries[of ?om] by simp
  then have b: "fst p \<notin> set (order ?om)" using snoc.prems by simp
  show ?case using Entries_Set_absent[OF a b] E by simp
qed

lemma DeepEqual_eq:
  "DeepEqual a b = (a = b)"
  "DeepEqual_slice xs ys = (xs = ys)"
  "DeepEqual_entries es fs = (es = fs)"
  by (induction a b and xs ys and es fs rule: DeepEqual_DeepEqual_slice_DeepEqual_entries.induct)
     (auto simp: prod_eq_iff)

lemma KVPair_Equal_Some: "KVPair_Equal (Some p) (Some q) = (fst p = fst q \<and> DeepEqual (snd p) (snd q))"
  by simp

text \<open>
  Claim C1. Setting pairwise distinct keys \<open>k1..kn\<close> on a fresh map and traversing it with
  a cursor from \<open>EntriesIter\<close> yields exactly \<open>k1..kn\<close> in that order, whatever the values
  (and each key with the value set). \<open>Set(k, v2)\<close> after \<open>Set(k, v1)\<close>, and more generally
  \<open>Set\<close> of a key that is present, leaves the traversal order as it was and changes only
  the value of \<open>k\<close>.
\<close>

theorem Set_preserves_insertion_order:
  "(distinct (map fst ps) \<longrightarrow>
      map fst (Entries (foldl (\<lambda>om pair. Set om (fst pair) (snd pair)) NewMap ps)) = map fst ps \<and>
      Entries (foldl (\<lambda>om pair. Set om (fst pair) (snd pair)) NewMap ps) = ps) \<and>
   map fst (Entries (Set (Set om k v1) k v2)) = map fst (Entries (Set om k v1)) \<and>
   Entries (Set (Set om k v1) k v2) =
     map (\<lambda>p. if fst p = k then (k, v2) else p) (Entries (Set om k v1)) \<and>
   (Has om k \<longrightarrow>
      map fst (Entries (Set om k v2)) = map fst (Entries om) \<and>
      Entries (Set om k v2) = map (\<lambda>p. if fst p = k then (k, v2) else p) (Entries om))"
proof -
  have p: "m (Set om k v1) k \<noteq> None" by simp
  have a: "map fst (Entries (Set (Set om k v1) k v2)) = map fst (Entries (Set om k v1))"
    using p by (simp add: map_fst_Entries order_Set del: m_Set)
  have b: "Has om k \<Longrightarrow> map fst (Entries (Set om k v2)) = map fst (Entries om)"
    by (auto simp: map_fst_Entries order_Set Has_def)
  show ?thesis
    using a b Entries_Set_present[OF p] Entries_Set_present[of om k v2]
    by (simp add: Entries_foldl_Set_fresh Has_def)
qed

theorem Set_preserves_insertion_order_witness:
  "distinct (map fst [(''b'', VInt 1), (''a'', VBool True)]) \<and>
   Has (Set NewMap ''x'' VNil) ''x'' \<and>
   Entries (foldl (\<lambda>om pair. Set om (fst pair) (snd pair)) NewMap
      [(''b'', VInt 1), (''a'', VBool True)]) = [(''b'', VInt 1), (''a'', VBool True)] \<and>
   map fst (Entries (Set (Set NewMap ''x'' VNil) ''x'' (VInt 2))) =
     map fst (Entries (Set NewMap ''x'' VNil))"
proof -
  have h1: "distinct (map fst [(''b'', VInt 1), (''a'', VBool True)])" by simp
  have h2: "Has (Set NewMap ''x'' VNil) ''x''" by (simp add: Has_def)
  show ?thesis
    using h1 h2
      Set_preserves_insertion_order[of "[(''b'', VInt 1), (''a'', VBool True)]"
        "Set NewMap ''x'' VNil" "''x''" VNil "VInt 2"]
    by simp
qed

subsection \<open>Equality of maps\<close>

text \<open>
  Claim C3. \<open>a.Equal(b)\<close> is true exactly when both are nil, or both are non-nil, have
  the same length and their forward traversals yield the same keys in the same order with
  values equal under \<open>reflect.DeepEqual\<close>. In particular two maps with the same set of
  key/value pairs and different key orders are not equal.
\<close>

theorem Equal_iff:
  "(Equal a b \<longleftrightarrow>
      (a = None \<and> b = None) \<or>
      (\<exists>om other. a = Some om \<and> b = Some other \<and> Len om = Len other \<and>
         list_all2 (\<lambda>p q. fst p = fst q \<and> DeepEqual (snd p) (snd q)) (Entries om) (Entries other))) \<and>
   (set (Entries om) = set (Entries other) \<and> map fst (Entries om) \<noteq> map fst (Entries other)
      \<longrightarrow> \<not> Equal (Some om) (Some other))"
proof -
  have loop: "Len x = Len y \<Longrightarrow>
     Equal_loop x y (EntriesIter x) (EntriesIter y) =
       list_all2 (\<lambda>p q. fst p = fst q \<and> DeepEqual (snd p) (snd q)) (Entries x) (Entries y)" for x y
    using Equal_loop_drain[of x "EntriesIter x" y "EntriesIter y"]
    by (simp add: Len_Entries Entries_def)
  have 1: "Equal a b \<longleftrightarrow>
      (a = None \<and> b = None) \<or>
      (\<exists>om other. a = Some om \<and> b = Some other \<and> Len om = Len other \<and>
         list_all2 (\<lambda>p q. fst p = fst q \<and> DeepEqual (snd p) (snd q)) (Entries om) (Entries other))"
    by (cases a; cases b) (auto simp: loop)
  have 2: "Equal (Some om) (Some other) \<Longrightarrow> map fst (Entries om) = map fst (Entries other)"
    by (auto simp: loop list_all2_conv_all_nth intro!: nth_equalityI split: if_splits)
  show ?thesis using 1 2 by blast
qed

theorem Equal_iff_witness:
  "set (Entries (Set (Set NewMap ''a'' (VInt 1)) ''b'' (VInt 2))) =
     set (Entries (Set (Set NewMap ''b'' (VInt 2)) ''a'' (VInt 1))) \<and>
   map fst (Entries (Set (Set NewMap ''a'' (VInt 1)) ''b'' (VInt 2))) \<noteq>
     map fst (Entries (Set (Set NewMap ''b'' (VInt 2)) ''a'' (VInt 1))) \<and>
   \<not> Equal (Some (Set (Set NewMap ''a'' (VInt 1)) ''b'' (VInt 2)))
            (Some (Set (Set NewMap ''b'' (VInt 2)) ''a'' (VInt 1)))"
proof -
  have h: "set (Entries (Set (Set NewMap ''a'' (VInt 1)) ''b'' (VInt 2))) =
       set (Entries (Set (Set NewMap ''b'' (VInt 2)) ''a'' (VInt 1))) \<and>
     map fst (Entries (Set (Set NewMap ''a'' (VInt 1)) ''b'' (VInt 2))) \<noteq>
       map fst (Entries (Set (Set NewMap ''b'' (VInt 2)) ''a'' (VInt 1)))"
  proof -
    have e1: "Entries (Set (Set NewMap ''a'' (VInt 1)) ''b'' (VInt 2)) =
                [(''a'', VInt 1), (''b'', VInt 2)]" by code_simp
    have e2: "Entries (Set (Set NewMap ''b'' (VInt 2)) ''a'' (VInt 1)) =
                [(''b'', VInt 2), (''a'', VInt 1)]" by code_simp
    show ?thesis unfolding e1 e2 by auto
  qed
  show ?thesis
    using h Equal_iff[of None None "Set (Set NewMap ''a'' (VInt 1)) ''b'' (VInt 2)"
        "Set (Set NewMap ''b'' (VInt 2)) ''a'' (VInt 1)"]
    by blast
qed


subsection \<open>Cursors\<close>

lemma find_rev_upt_Some:
  "List.find P (rev [0..<i]) = Some j \<Longrightarrow> j < i"
  by (induction i) (auto split: if_splits)

lemma Prev_Some: "Prev lst e = Some e' \<Longrightarrow> fst e' < fst e"
  by (auto simp: Prev_def elem_at_def split: if_splits dest: find_rev_upt_Some)

text \<open>A cursor from \<open>EntriesReverseIter\<close> run until it returns \<open>nil, false\<close>.\<close>

function reverse_drain :: "Map \<Rightarrow> Element option \<Rightarrow> KVPair list" where
  "reverse_drain om e =
     (case reverse_iter_next om e of
        (None, _) \<Rightarrow> []
      | (Some pair, e') \<Rightarrow> pair # reverse_drain om e')"
  by pat_completeness auto
termination
  by (relation "measure (\<lambda>(om, e). case e of None \<Rightarrow> 0 | Some el \<Rightarrow> Suc (fst el))")
     (auto simp: reverse_iter_next_def split: option.splits dest!: Prev_Some)

declare reverse_drain.simps [simp del]



subsection \<open>The invariant\<close>

text \<open>
  The invariant of a map: the order sequence holds each key of \<open>m\<close> exactly once and no
  other key, and \<open>keys\<close> sends each key of \<open>m\<close>, and nothing else, to the linked element
  that holds it.
\<close>

definition bijection :: "Map \<Rightarrow> bool" where
  "bijection om = (distinct (order om) \<and> (\<forall>k. Has om k \<longleftrightarrow> k \<in> set (order om)))"

definition keys_index :: "Map \<Rightarrow> bool" where
  "keys_index om =
     (\<forall>k. (keys om k = None \<longleftrightarrow> m om k = None) \<and>
          (\<forall>e. keys om k = Some e \<longrightarrow> linked (l om) (fst e) \<and> fst (l om ! fst e) = k))"

definition wf :: "Map \<Rightarrow> bool" where
  "wf om = (bijection om \<and> keys_index om)"

lemma keys_indexD:
  "keys_index om \<Longrightarrow> keys om k = Some e \<Longrightarrow> linked (l om) (fst e) \<and> fst (l om ! fst e) = k"
  unfolding keys_index_def by blast

lemma keys_index_None: "keys_index om \<Longrightarrow> (keys om k = None) = (m om k = None)"
  unfolding keys_index_def by blast

lemma keys_indexI:
  assumes "\<And>k. (keys om k = None) = (m om k = None)"
    and "\<And>k e. keys om k = Some e \<Longrightarrow> linked (l om) (fst e) \<and> fst (l om ! fst e) = k"
  shows "keys_index om"
  unfolding keys_index_def using assms by blast

lemma filter_neq_id: "k \<notin> set xs \<Longrightarrow> filter (\<lambda>x. x \<noteq> k) xs = xs"
  by (induction xs) auto

lemma wf_NewMap: "wf NewMap"
  by (simp add: wf_def bijection_def keys_index_def NewMap_def order_def Has_def)

lemma wf_Set: assumes "wf om" shows "wf (Set om k v)"
proof (cases "m om k = None")
  case True
  have "\<not> Has om k" using True by (simp add: Has_def)
  then have nk: "k \<notin> set (order om)" using assms by (simp add: wf_def bijection_def)
  have b: "bijection (Set om k v)"
    using assms True nk by (auto simp: wf_def bijection_def Has_def order_Set)
  have ki: "keys_index om" using assms by (simp add: wf_def)
  have "keys_index (Set om k v)"
  proof (rule keys_indexI)
    fix k' show "(keys (Set om k v) k' = None) = (m (Set om k v) k' = None)"
      using True keys_index_None[OF ki, of k'] by (simp add: keys_Set)
  next
    fix k' e assume a: "keys (Set om k v) k' = Some e"
    show "linked (l (Set om k v)) (fst e) \<and> fst (l (Set om k v) ! fst e) = k'"
    proof (cases "k' = k")
      case True
      then show ?thesis using a \<open>m om k = None\<close> by (auto simp: keys_Set l_Set linked_def)
    next
      case False
      then have "keys om k' = Some e" using a \<open>m om k = None\<close> by (simp add: keys_Set)
      from keys_indexD[OF ki this] show ?thesis
        using \<open>m om k = None\<close> by (simp add: l_Set linked_def nth_append)
    qed
  qed
  with b show ?thesis by (simp add: wf_def)
next
  case False
  have ki: "keys_index om" using assms by (simp add: wf_def)
  have "keys_index (Set om k v)"
  proof (rule keys_indexI)
    fix k' show "(keys (Set om k v) k' = None) = (m (Set om k v) k' = None)"
      using False keys_index_None[OF ki, of k'] by (auto simp: keys_Set)
  next
    fix k' e assume "keys (Set om k v) k' = Some e"
    then have "keys om k' = Some e" using False by (simp add: keys_Set)
    from keys_indexD[OF ki this]
    show "linked (l (Set om k v)) (fst e) \<and> fst (l (Set om k v) ! fst e) = k'"
      using False by (auto simp: l_Set)
  qed
  moreover have "bijection (Set om k v)"
    using assms False by (auto simp: wf_def bijection_def Has_def order_Set)
  ultimately show ?thesis by (simp add: wf_def)
qed

lemma wf_foldl_Set:
  "wf om \<Longrightarrow> wf (foldl (\<lambda>om pair. Set om (fst pair) (snd pair)) om ps)"
  by (induction ps arbitrary: om) (auto simp: wf_Set)

lemma wf_NewMapFromKVPairs: "wf (NewMapFromKVPairs ps)"
  by (simp add: NewMapFromKVPairs_def wf_foldl_Set wf_NewMap)

lemma filter_snd_unlink:
  assumes "i < length lst"
  shows "filter snd (lst[i := (x, False)]) = filter snd (take i lst) @ filter snd (drop (Suc i) lst)"
proof -
  have "lst[i := (x, False)] = take i lst @ (x, False) # drop (Suc i) lst"
    using assms by (simp add: upd_conv_take_nth_drop)
  then show ?thesis by (metis filter.simps(2) filter_append snd_conv)
qed

lemma order_Remove:
  assumes "linked lst i" "fst (lst ! i) = k" "distinct (map fst (filter snd lst))"
  shows "map fst (filter snd (Remove lst (i, k'))) = filter (\<lambda>x. x \<noteq> k) (map fst (filter snd lst))"
proof -
  have i: "i < length lst" "snd (lst ! i)" using assms by (simp_all add: linked_def)
  have split: "lst = take i lst @ lst ! i # drop (Suc i) lst"
    using i by (simp add: id_take_nth_drop)
  let ?A = "map fst (filter snd (take i lst))" and ?B = "map fst (filter snd (drop (Suc i) lst))"
  have o: "map fst (filter snd lst) = ?A @ k # ?B"
    using i assms(2) by (subst split) simp
  then have "k \<notin> set ?A" "k \<notin> set ?B" using assms(3) by auto
  then have "filter (\<lambda>x. x \<noteq> k) (?A @ k # ?B) = ?A @ ?B"
    by (simp add: filter_neq_id del: set_map set_filter)
  moreover have "map fst (filter snd (Remove lst (i, k'))) = ?A @ ?B"
    using assms(1) i by (simp add: Remove_def filter_snd_unlink)
  ultimately show ?thesis using o by simp
qed

lemma Delete_absent: "m om k = None \<Longrightarrow> Delete om k = Inr ((VNil, False), om)"
  by (simp add: Delete_def)

lemma Delete_wf:
  assumes "wf om" "m om k = Some v"
  shows "\<exists>om'. Delete om k = Inr ((v, True), om') \<and> wf om' \<and> \<not> Has om' k \<and>
           order om' = filter (\<lambda>x. x \<noteq> k) (order om) \<and> m om' = (m om)(k := None)"
proof -
  have ki0: "keys_index om" using assms by (simp add: wf_def)
  then have "keys om k \<noteq> None" using assms(2) by (simp add: keys_index_def)
  then obtain e where ek: "keys om k = Some e" by blast
  then have "linked (l om) (fst e) \<and> fst (l om ! fst e) = k"
    using keys_indexD[OF ki0] by blast
  with ek have e: "keys om k = Some e" "linked (l om) (fst e)" "fst (l om ! fst e) = k"
    by simp_all
  let ?om' = "om\<lparr>l := Remove (l om) e, keys := (keys om)(k := None), m := (m om)(k := None)\<rparr>"
  have D: "Delete om k = Inr ((v, True), ?om')" using assms(2) e by (simp add: Delete_def)
  have d: "distinct (order om)" using assms by (simp add: wf_def bijection_def)
  have o: "order ?om' = filter (\<lambda>x. x \<noteq> k) (order om)"
    using order_Remove[OF e(2) e(3), of "snd e"] d by (simp add: order_def)
  have b: "bijection ?om'"
    using assms(1) o d by (auto simp: wf_def bijection_def Has_def)
  have ki: "keys_index ?om'"
  proof (rule keys_indexI)
    fix k' show "(keys ?om' k' = None) = (m ?om' k' = None)"
      using keys_index_None[OF ki0, of k'] by simp
  next
    fix k' e' assume a: "keys ?om' k' = Some e'"
    then have k': "k' \<noteq> k" "keys om k' = Some e'" by (auto split: if_splits)
    have e': "linked (l om) (fst e')" "fst (l om ! fst e') = k'"
      using keys_indexD[OF ki0 k'(2)] by simp_all
    have ne: "fst e' \<noteq> fst e" using e(3) e'(2) k'(1) by metis
    show "linked (l ?om') (fst e') \<and> fst (l ?om' ! fst e') = k'"
      using e' ne e by (simp add: Remove_def linked_def)
  qed
  show ?thesis using D b ki o by (auto simp: wf_def Has_def)
qed


subsection \<open>Cursors while the map changes\<close>




lemma reverse_drain_None [simp]: "reverse_drain om None = []"
  by (simp add: reverse_drain.simps reverse_iter_next_def)




















lemma filter_neq_absent: "k \<notin> set xs \<Longrightarrow> filter (\<lambda>x. x \<noteq> k) xs = xs"
  by (induction xs) auto













subsection \<open>encoding/json: the decoder's token stream\<close>

text \<open>
  The package reads its input through \<open>json.Decoder\<close> with \<open>UseNumber\<close>, calling only
  \<open>More\<close> and \<open>Token\<close>. The decoder is modelled by the input it has not read yet and the
  state of its token machine. Reading and decoding a scalar (\<open>Decode\<close> into a \<open>string\<close>
  or an \<open>interface{}\<close>) is written as one pass over the bytes of the literal.
\<close>

datatype error =
    EOF
  | ErrUnexpectedEOF
  | SyntaxError
  | PanicIndexOutOfRange
  | ExpectObjectOpen
  | ExpectStringKey
  | ExpectObjectClose
  | ExpectArrayClose
  | UnexpectedDelimiter
  | ExpectEndOfObject
  | UnsupportedTypeError
  | InvalidNumberLiteral
  | MarshalerError error

datatype json_Token = Delim char | TBool bool | TNumber string | TString string | TNull

datatype tokenState =
    tokenTopValue
  | tokenArrayStart
  | tokenArrayValue
  | tokenArrayComma
  | tokenObjectStart
  | tokenObjectKey
  | tokenObjectColon
  | tokenObjectValue
  | tokenObjectComma

record Decoder =
  buf :: string
  tokenState :: tokenState
  tokenStack :: "tokenState list"

definition NewDecoder :: "string \<Rightarrow> Decoder" where
  "NewDecoder data = \<lparr>buf = data, tokenState = tokenTopValue, tokenStack = []\<rparr>"

definition isSpace :: "char \<Rightarrow> bool" where
  "isSpace c = (c = CHR '' '' \<or> c = CHR 0x09 \<or> c = CHR 0x0D \<or> c = CHR 0x0A)"

definition byte :: "char \<Rightarrow> nat" where
  "byte c = of_char c"

definition isDigit :: "char \<Rightarrow> bool" where
  "isDigit c = (byte (CHR ''0'') \<le> byte c \<and> byte c \<le> byte (CHR ''9''))"

definition isHex :: "char \<Rightarrow> bool" where
  "isHex c = (isDigit c \<or> (byte (CHR ''a'') \<le> byte c \<and> byte c \<le> byte (CHR ''f'')) \<or>
              (byte (CHR ''A'') \<le> byte c \<and> byte c \<le> byte (CHR ''F'')))"

definition hexval :: "char \<Rightarrow> nat" where
  "hexval c =
     (if isDigit c then byte c - byte (CHR ''0'')
      else if byte (CHR ''a'') \<le> byte c \<and> byte c \<le> byte (CHR ''f'') then byte c - byte (CHR ''a'') + 10
      else byte c - byte (CHR ''A'') + 10)"

definition getu4 :: "char \<Rightarrow> char \<Rightarrow> char \<Rightarrow> char \<Rightarrow> nat" where
  "getu4 h1 h2 h3 h4 = ((hexval h1 * 16 + hexval h2) * 16 + hexval h3) * 16 + hexval h4"

text \<open>\<open>utf8.EncodeRune\<close> of a valid code point, and \<open>utf8.RuneError\<close> encoded.\<close>

definition EncodeRune :: "nat \<Rightarrow> string" where
  "EncodeRune r =
     (if r < 0x80 then [char_of r]
      else if r < 0x800 then [char_of (0xC0 + r div 64), char_of (0x80 + r mod 64)]
      else if r < 0x10000 then
        [char_of (0xE0 + r div 4096), char_of (0x80 + (r div 64) mod 64), char_of (0x80 + r mod 64)]
      else
        [char_of (0xF0 + r div 262144), char_of (0x80 + (r div 4096) mod 64),
         char_of (0x80 + (r div 64) mod 64), char_of (0x80 + r mod 64)])"

definition RuneError :: nat where
  "RuneError = 0xFFFD"

text \<open>
  \<open>utf8.DecodeRune\<close>, as far as its callers here need it: the number of bytes of the
  well-formed UTF-8 sequence the input starts with, or \<open>0\<close> where Go returns
  \<open>(RuneError, 1)\<close>.
\<close>

definition inRange :: "nat \<Rightarrow> nat \<Rightarrow> char \<Rightarrow> bool" where
  "inRange lo hi c = (lo \<le> byte c \<and> byte c \<le> hi)"

fun utf8_size :: "string \<Rightarrow> nat" where
  "utf8_size [] = 0"
| "utf8_size (c # cs) =
     (if byte c < 0x80 then 1
      else if inRange 0xC2 0xDF c then
        (case cs of c1 # _ \<Rightarrow> if inRange 0x80 0xBF c1 then 2 else 0 | _ \<Rightarrow> 0)
      else if inRange 0xE0 0xEF c then
        (case cs of
           c1 # c2 # _ \<Rightarrow>
             if inRange (if byte c = 0xE0 then 0xA0 else 0x80) (if byte c = 0xED then 0x9F else 0xBF) c1
                \<and> inRange 0x80 0xBF c2
             then 3 else 0
         | _ \<Rightarrow> 0)
      else if inRange 0xF0 0xF4 c then
        (case cs of
           c1 # c2 # c3 # _ \<Rightarrow>
             if inRange (if byte c = 0xF0 then 0x90 else 0x80) (if byte c = 0xF4 then 0x8F else 0xBF) c1
                \<and> inRange 0x80 0xBF c2 \<and> inRange 0x80 0xBF c3
             then 4 else 0
         | _ \<Rightarrow> 0)
      else 0)"

declare utf8_size.simps [simp del]

text \<open>A scan result: the decoded literal and the input after it.\<close>

type_synonym 'a scan = "error + ('a \<times> string)"

definition emit :: "string \<Rightarrow> string scan \<Rightarrow> string scan" where
  "emit bs r = (case r of Inl err \<Rightarrow> Inl err | Inr (x, rest) \<Rightarrow> Inr (bs @ x, rest))"

definition unescape :: "char \<Rightarrow> char option" where
  "unescape e =
     (if e = CHR 0x22 \<or> e = CHR 0x5C \<or> e = CHR ''/'' then Some e
      else if e = CHR ''b'' then Some (CHR 0x08)
      else if e = CHR ''f'' then Some (CHR 0x0C)
      else if e = CHR ''n'' then Some (CHR 0x0A)
      else if e = CHR ''r'' then Some (CHR 0x0D)
      else if e = CHR ''t'' then Some (CHR 0x09)
      else None)"

text \<open>
  The second half of a surrogate pair: \<open>getu4\<close> of the next six bytes and
  \<open>utf16.DecodeRune\<close>; \<open>None\<close> where the result is the replacement character.
\<close>

definition surrogate_pair :: "nat \<Rightarrow> string \<Rightarrow> nat option" where
  "surrogate_pair rr cs =
     (case cs of
        b # u # h1 # h2 # h3 # h4 # _ \<Rightarrow>
          if b = CHR 0x5C \<and> u = CHR ''u'' \<and> isHex h1 \<and> isHex h2 \<and> isHex h3 \<and> isHex h4
             \<and> rr < 0xDC00 \<and> 0xDC00 \<le> getu4 h1 h2 h3 h4 \<and> getu4 h1 h2 h3 h4 < 0xE000
          then Some ((rr - 0xD800) * 1024 + (getu4 h1 h2 h3 h4 - 0xDC00) + 0x10000)
          else None
      | _ \<Rightarrow> None)"

text \<open>
  One step of \<open>unquote\<close> inside a string literal, at a byte \<open>c\<close> that is not the closing
  quote: the bytes it appends and the input after what it consumed. The scanner's
  \<open>stateInString\<close> states reject a control character and a malformed escape; input that
  ends inside the literal is \<open>io.ErrUnexpectedEOF\<close>.
\<close>

definition escape_u :: "string \<Rightarrow> string scan" where
  "escape_u cs1 =
     (if \<not> list_all isHex (take 4 cs1) then Inl SyntaxError
      else if length cs1 < 4 then Inl ErrUnexpectedEOF
      else
        (let rr = getu4 (cs1 ! 0) (cs1 ! 1) (cs1 ! 2) (cs1 ! 3); cs2 = drop 4 cs1
         in if 0xD800 \<le> rr \<and> rr < 0xE000 then
              (case surrogate_pair rr cs2 of
                 Some dec \<Rightarrow> Inr (EncodeRune dec, drop 6 cs2)
               | None \<Rightarrow> Inr (EncodeRune RuneError, cs2))
            else Inr (EncodeRune rr, cs2)))"

definition string_step :: "char \<Rightarrow> string \<Rightarrow> string scan" where
  "string_step c cs =
     (if c = CHR 0x5C then
        (case cs of
           [] \<Rightarrow> Inl ErrUnexpectedEOF
         | e # cs1 \<Rightarrow>
             if e = CHR ''u'' then escape_u cs1
             else
               (case unescape e of
                  None \<Rightarrow> Inl SyntaxError
                | Some x \<Rightarrow> Inr ([x], cs1)))
      else if byte c < 0x20 then Inl SyntaxError
      else if byte c < 0x80 then Inr ([c], cs)
      else if utf8_size (c # cs) = 0 then Inr (EncodeRune RuneError, cs)
      else Inr (take (utf8_size (c # cs)) (c # cs), drop (utf8_size (c # cs)) (c # cs)))"

lemma escape_u_length: "escape_u cs1 = Inr (bs, rest) \<Longrightarrow> length rest \<le> length cs1"
  unfolding escape_u_def Let_def
  by (simp split: if_splits option.splits) auto

lemma string_step_length:
  assumes "string_step c cs = Inr (bs, rest)"
  shows "length rest \<le> length cs"
proof (cases "c = CHR 0x5C")
  case True
  then show ?thesis using assms
    by (cases cs) (auto simp: string_step_def split: if_splits option.splits dest: escape_u_length)
next
  case False
  then have "rest = cs \<or> (utf8_size (c # cs) \<noteq> 0 \<and> rest = drop (utf8_size (c # cs)) (c # cs))"
    using assms by (simp add: string_step_def split: if_splits)
  then show ?thesis by (cases "utf8_size (c # cs)") auto
qed

text \<open>A string literal after its opening quote, decoded.\<close>

function scan_string :: "string \<Rightarrow> string scan" where
  "scan_string [] = Inl ErrUnexpectedEOF"
| "scan_string (c # cs) =
     (if c = CHR 0x22 then Inr ([], cs)
      else
        (case string_step c cs of
           Inl err \<Rightarrow> Inl err
         | Inr (bs, rest) \<Rightarrow> emit bs (scan_string rest)))"
  by pat_completeness auto
termination
  by (relation "measure length") (auto dest!: string_step_length)


declare scan_string.simps [simp del]

text \<open>
  A number literal: the scanner's states \<open>stateNeg\<close>, \<open>state1\<close>, \<open>state0\<close>, \<open>stateDot\<close>,
  \<open>stateDot0\<close>, \<open>stateE\<close>, \<open>stateESign\<close> and \<open>stateE0\<close>. The literal ends before the first
  byte that cannot continue it, or at the end of the input; with \<open>UseNumber\<close> its text
  is kept as a \<open>json.Number\<close>.
\<close>

fun stateE0 :: "string \<Rightarrow> string scan" where
  "stateE0 [] = Inr ([], [])"
| "stateE0 (c # cs) = (if isDigit c then emit [c] (stateE0 cs) else Inr ([], c # cs))"

fun stateESign :: "string \<Rightarrow> string scan" where
  "stateESign [] = Inl ErrUnexpectedEOF"
| "stateESign (c # cs) = (if isDigit c then emit [c] (stateE0 cs) else Inl SyntaxError)"

fun stateE :: "string \<Rightarrow> string scan" where
  "stateE [] = Inl ErrUnexpectedEOF"
| "stateE (c # cs) =
     (if c = CHR ''+'' \<or> c = CHR ''-'' then emit [c] (stateESign cs) else stateESign (c # cs))"

fun stateDot0 :: "string \<Rightarrow> string scan" where
  "stateDot0 [] = Inr ([], [])"
| "stateDot0 (c # cs) =
     (if isDigit c then emit [c] (stateDot0 cs)
      else if c = CHR ''e'' \<or> c = CHR ''E'' then emit [c] (stateE cs)
      else Inr ([], c # cs))"

fun stateDot :: "string \<Rightarrow> string scan" where
  "stateDot [] = Inl ErrUnexpectedEOF"
| "stateDot (c # cs) = (if isDigit c then emit [c] (stateDot0 cs) else Inl SyntaxError)"

fun state0 :: "string \<Rightarrow> string scan" where
  "state0 [] = Inr ([], [])"
| "state0 (c # cs) =
     (if c = CHR ''.'' then emit [c] (stateDot cs)
      else if c = CHR ''e'' \<or> c = CHR ''E'' then emit [c] (stateE cs)
      else Inr ([], c # cs))"

fun state1 :: "string \<Rightarrow> string scan" where
  "state1 [] = Inr ([], [])"
| "state1 (c # cs) = (if isDigit c then emit [c] (state1 cs) else state0 (c # cs))"

fun stateNeg :: "string \<Rightarrow> string scan" where
  "stateNeg [] = Inl ErrUnexpectedEOF"
| "stateNeg (c # cs) =
     (if c = CHR ''0'' then emit [c] (state0 cs)
      else if isDigit c then emit [c] (state1 cs)
      else Inl SyntaxError)"

text \<open>The rest of \<open>true\<close>, \<open>false\<close> or \<open>null\<close> after its first letter.\<close>

fun scan_word :: "string \<Rightarrow> string \<Rightarrow> error + string" where
  "scan_word [] cs = Inr cs"
| "scan_word (x # xs) [] = Inl ErrUnexpectedEOF"
| "scan_word (x # xs) (c # cs) = (if c = x then scan_word xs cs else Inl SyntaxError)"

text \<open>
  \<open>Decode\<close> of a value into an \<open>interface{}\<close> where the next byte is neither \<open>[\<close> nor
  \<open>{\<close>: \<open>readValue\<close> on a fresh scanner, then \<open>literalInterface\<close>.
\<close>

definition number :: "string scan \<Rightarrow> json_Token scan" where
  "number r = (case r of Inl err \<Rightarrow> Inl err | Inr (x, rest) \<Rightarrow> Inr (TNumber x, rest))"

definition word :: "json_Token \<Rightarrow> error + string \<Rightarrow> json_Token scan" where
  "word t r = (case r of Inl err \<Rightarrow> Inl err | Inr rest \<Rightarrow> Inr (t, rest))"

fun readValue :: "string \<Rightarrow> json_Token scan" where
  "readValue [] = Inl EOF"
| "readValue (c # cs) =
     (if c = CHR 0x22 then
        (case scan_string cs of Inl err \<Rightarrow> Inl err | Inr (x, rest) \<Rightarrow> Inr (TString x, rest))
      else if c = CHR ''-'' then number (emit [c] (stateNeg cs))
      else if c = CHR ''0'' then number (emit [c] (state0 cs))
      else if isDigit c then number (emit [c] (state1 cs))
      else if c = CHR ''t'' then word (TBool True) (scan_word ''rue'' cs)
      else if c = CHR ''f'' then word (TBool False) (scan_word ''alse'' cs)
      else if c = CHR ''n'' then word TNull (scan_word ''ull'' cs)
      else Inl SyntaxError)"

subsubsection \<open>Decoder.peek, More and Token\<close>

definition peek :: "Decoder \<Rightarrow> error + (char \<times> Decoder)" where
  "peek dec =
     (case dropWhile isSpace (buf dec) of
        [] \<Rightarrow> Inl EOF
      | c # cs \<Rightarrow> Inr (c, dec\<lparr>buf := c # cs\<rparr>))"

definition More :: "Decoder \<Rightarrow> bool" where
  "More dec = (case peek dec of Inl err \<Rightarrow> False | Inr (c, _) \<Rightarrow> c \<noteq> CHR '']'' \<and> c \<noteq> CHR ''}'')"

definition tokenValueAllowed :: "Decoder \<Rightarrow> bool" where
  "tokenValueAllowed dec =
     (tokenState dec = tokenTopValue \<or> tokenState dec = tokenArrayStart \<or>
      tokenState dec = tokenArrayValue \<or> tokenState dec = tokenObjectValue)"

definition tokenValueEnd :: "Decoder \<Rightarrow> Decoder" where
  "tokenValueEnd dec =
     (if tokenState dec = tokenArrayStart \<or> tokenState dec = tokenArrayValue
      then dec\<lparr>tokenState := tokenArrayComma\<rparr>
      else if tokenState dec = tokenObjectValue then dec\<lparr>tokenState := tokenObjectComma\<rparr>
      else dec)"

text \<open>\<open>dec.scanp++\<close> after \<open>peek\<close> found a byte.\<close>

definition advance :: "Decoder \<Rightarrow> Decoder" where
  "advance dec = dec\<lparr>buf := tl (buf dec)\<rparr>"

text \<open>
  Closing a bracket pops \<open>tokenStack\<close>; Go would panic on an empty stack, which no
  decoder started by \<open>NewDecoder\<close> reaches.
\<close>

definition pop :: "char \<Rightarrow> Decoder \<Rightarrow> error + (json_Token \<times> Decoder)" where
  "pop c dec =
     (case tokenStack dec of
        [] \<Rightarrow> Inl PanicIndexOutOfRange
      | s # st \<Rightarrow> Inr (Delim c, tokenValueEnd (dec\<lparr>tokenState := s, tokenStack := st\<rparr>)))"

definition push :: "char \<Rightarrow> tokenState \<Rightarrow> Decoder \<Rightarrow> error + (json_Token \<times> Decoder)" where
  "push c s dec = Inr (Delim c, dec\<lparr>tokenStack := tokenState dec # tokenStack dec, tokenState := s\<rparr>)"

function Token :: "Decoder \<Rightarrow> error + (json_Token \<times> Decoder)" where
  "Token dec =
     (case peek dec of
        Inl err \<Rightarrow> Inl err
      | Inr (c, dec1) \<Rightarrow>
          if c = CHR ''['' then
            (if \<not> tokenValueAllowed dec1 then Inl SyntaxError
             else push c tokenArrayStart (advance dec1))
          else if c = CHR '']'' then
            (if tokenState dec1 \<noteq> tokenArrayStart \<and> tokenState dec1 \<noteq> tokenArrayComma
             then Inl SyntaxError
             else pop c (advance dec1))
          else if c = CHR ''{'' then
            (if \<not> tokenValueAllowed dec1 then Inl SyntaxError
             else push c tokenObjectStart (advance dec1))
          else if c = CHR ''}'' then
            (if tokenState dec1 \<noteq> tokenObjectStart \<and> tokenState dec1 \<noteq> tokenObjectComma
             then Inl SyntaxError
             else pop c (advance dec1))
          else if c = CHR '':'' then
            (if tokenState dec1 \<noteq> tokenObjectColon then Inl SyntaxError
             else Token ((advance dec1)\<lparr>tokenState := tokenObjectValue\<rparr>))
          else if c = CHR '','' then
            (if tokenState dec1 = tokenArrayComma
             then Token ((advance dec1)\<lparr>tokenState := tokenArrayValue\<rparr>)
             else if tokenState dec1 = tokenObjectComma
             then Token ((advance dec1)\<lparr>tokenState := tokenObjectKey\<rparr>)
             else Inl SyntaxError)
          else if c = CHR 0x22 \<and>
                  (tokenState dec1 = tokenObjectStart \<or> tokenState dec1 = tokenObjectKey) then
            (case scan_string (tl (buf dec1)) of
               Inl err \<Rightarrow> Inl err
             | Inr (x, rest) \<Rightarrow> Inr (TString x, dec1\<lparr>buf := rest, tokenState := tokenObjectColon\<rparr>))
          else
            (if \<not> tokenValueAllowed dec1 then Inl SyntaxError
             else
               (case readValue (buf dec1) of
                  Inl err \<Rightarrow> Inl err
                | Inr (x, rest) \<Rightarrow> Inr (x, tokenValueEnd (dec1\<lparr>buf := rest\<rparr>)))))"
  by pat_completeness auto

lemma peek_Inr:
  assumes "peek dec = Inr (c, dec1)"
  shows "buf dec1 = c # tl (buf dec1)" and "length (tl (buf dec1)) < length (buf dec)"
    and "tokenState dec1 = tokenState dec" and "tokenStack dec1 = tokenStack dec"
proof -
  obtain cs where d: "dropWhile isSpace (buf dec) = c # cs" "dec1 = dec\<lparr>buf := c # cs\<rparr>"
    using assms by (auto simp: peek_def split: list.splits)
  have "length (c # cs) \<le> length (buf dec)" using d(1) by (metis length_dropWhile_le)
  then show "length (tl (buf dec1)) < length (buf dec)" using d(2) by simp
  show "buf dec1 = c # tl (buf dec1)" "tokenState dec1 = tokenState dec"
    "tokenStack dec1 = tokenStack dec" using d(2) by simp_all
qed

termination Token
  by (relation "measure (\<lambda>dec. length (buf dec))")
     (auto simp: advance_def dest: peek_Inr(2))

declare Token.simps [simp del]


lemma emit_Inr: "emit bs r = Inr (x, rest) \<longleftrightarrow> (\<exists>y. r = Inr (y, rest) \<and> x = bs @ y)"
  by (auto simp: emit_def split: sum.splits)

lemma emit_Inl: "emit bs r = Inl err \<longleftrightarrow> r = Inl err"
  by (auto simp: emit_def split: sum.splits)

lemma scan_string_length: "scan_string cs = Inr (x, rest) \<Longrightarrow> length rest < length cs"
proof (induction cs arbitrary: x rest rule: scan_string.induct)
  case 1
  then show ?case by (simp add: scan_string.simps)
next
  case (2 c cs)
  show ?case
  proof (cases "c = CHR 0x22")
    case True
    then show ?thesis using "2.prems" by (simp add: scan_string.simps)
  next
    case False
    then obtain bs r y where s: "string_step c cs = Inr (bs, r)" "scan_string r = Inr (y, rest)"
      using "2.prems" by (auto simp: scan_string.simps emit_Inr split: sum.splits)
    from "2.IH"[OF False s(1) refl s(2)] string_step_length[OF s(1)]
    show ?thesis by simp
  qed
qed

lemma stateE0_split: "stateE0 cs = Inr (x, rest) \<Longrightarrow> cs = x @ rest"
  by (induction cs arbitrary: x) (auto simp: emit_Inr split: if_splits)

lemma stateESign_split: "stateESign cs = Inr (x, rest) \<Longrightarrow> cs = x @ rest"
  by (cases cs) (auto simp: emit_Inr split: if_splits dest: stateE0_split)

lemma stateE_split: "stateE cs = Inr (x, rest) \<Longrightarrow> cs = x @ rest"
  by (cases cs) (auto simp: emit_Inr split: if_splits dest: stateESign_split simp del: stateESign.simps)

lemma stateDot0_split: "stateDot0 cs = Inr (x, rest) \<Longrightarrow> cs = x @ rest"
  by (induction cs arbitrary: x) (auto simp: emit_Inr split: if_splits dest: stateE_split)

lemma stateDot_split: "stateDot cs = Inr (x, rest) \<Longrightarrow> cs = x @ rest"
  by (cases cs) (auto simp: emit_Inr split: if_splits dest: stateDot0_split)

lemma state0_split: "state0 cs = Inr (x, rest) \<Longrightarrow> cs = x @ rest"
  by (cases cs) (auto simp: emit_Inr split: if_splits dest: stateDot_split stateE_split)

lemma state1_split: "state1 cs = Inr (x, rest) \<Longrightarrow> cs = x @ rest"
  by (induction cs arbitrary: x)
     (auto simp: emit_Inr split: if_splits dest: state0_split simp del: state0.simps)

lemma stateNeg_split: "stateNeg cs = Inr (x, rest) \<Longrightarrow> cs = x @ rest"
  by (cases cs) (auto simp: emit_Inr split: if_splits dest: state0_split state1_split)

lemma scan_word_split: "scan_word xs cs = Inr rest \<Longrightarrow> cs = xs @ rest"
  by (induction xs cs rule: scan_word.induct) (auto split: if_splits)

text \<open>A number token is, byte for byte, the prefix of the input that was read.\<close>

lemma readValue_number: "readValue cs = Inr (TNumber x, rest) \<Longrightarrow> cs = x @ rest"
  by (cases cs)
     (auto simp: number_def word_def emit_Inr
           split: if_splits sum.splits dest!: stateNeg_split state0_split state1_split)

lemma readValue_length: "readValue cs = Inr (t, rest) \<Longrightarrow> length rest < length cs"
  by (cases cs)
     (auto simp: number_def word_def emit_Inr
           split: if_splits sum.splits
           dest!: stateNeg_split state0_split state1_split scan_word_split scan_string_length)

lemma tokenValueEnd_buf [simp]: "buf (tokenValueEnd dec) = buf dec"
  by (simp add: tokenValueEnd_def)

lemma Token_unfold:
  "peek dec = Inr (c, dec1) \<Longrightarrow>
   Token dec =
     (if c = CHR ''['' then
        (if \<not> tokenValueAllowed dec1 then Inl SyntaxError
         else push c tokenArrayStart (advance dec1))
      else if c = CHR '']'' then
        (if tokenState dec1 \<noteq> tokenArrayStart \<and> tokenState dec1 \<noteq> tokenArrayComma
         then Inl SyntaxError
         else pop c (advance dec1))
      else if c = CHR ''{'' then
        (if \<not> tokenValueAllowed dec1 then Inl SyntaxError
         else push c tokenObjectStart (advance dec1))
      else if c = CHR ''}'' then
        (if tokenState dec1 \<noteq> tokenObjectStart \<and> tokenState dec1 \<noteq> tokenObjectComma
         then Inl SyntaxError
         else pop c (advance dec1))
      else if c = CHR '':'' then
        (if tokenState dec1 \<noteq> tokenObjectColon then Inl SyntaxError
         else Token ((advance dec1)\<lparr>tokenState := tokenObjectValue\<rparr>))
      else if c = CHR '','' then
        (if tokenState dec1 = tokenArrayComma
         then Token ((advance dec1)\<lparr>tokenState := tokenArrayValue\<rparr>)
         else if tokenState dec1 = tokenObjectComma
         then Token ((advance dec1)\<lparr>tokenState := tokenObjectKey\<rparr>)
         else Inl SyntaxError)
      else if c = CHR 0x22 \<and>
              (tokenState dec1 = tokenObjectStart \<or> tokenState dec1 = tokenObjectKey) then
        (case scan_string (tl (buf dec1)) of
           Inl err \<Rightarrow> Inl err
         | Inr (x, rest) \<Rightarrow> Inr (TString x, dec1\<lparr>buf := rest, tokenState := tokenObjectColon\<rparr>))
      else
        (if \<not> tokenValueAllowed dec1 then Inl SyntaxError
         else
           (case readValue (buf dec1) of
              Inl err \<Rightarrow> Inl err
            | Inr (x, rest) \<Rightarrow> Inr (x, tokenValueEnd (dec1\<lparr>buf := rest\<rparr>)))))"
  by (subst Token.simps) simp

lemma Token_EOF: "peek dec = Inl err \<Longrightarrow> Token dec = Inl err"
  by (subst Token.simps) simp

lemma Token_length: "Token dec = Inr (t, dec') \<Longrightarrow> length (buf dec') < length (buf dec)"
proof (induction "length (buf dec)" arbitrary: dec t dec' rule: less_induct)
  case less
  from less.prems obtain c dec1 where p: "peek dec = Inr (c, dec1)"
    by (subst (asm) Token.simps) (auto split: sum.splits)
  note q = peek_Inr[OF p]
  have le: "length (buf dec1) \<le> length (buf dec)"
    using q(1,2) by (metis Suc_leI length_Cons length_tl list.sel(3))
  have adv: "length (buf (advance dec1)) < length (buf dec)" using q(2) by (simp add: advance_def)
  have rec: "Token ((advance dec1)\<lparr>tokenState := s\<rparr>) = Inr (t, dec') \<Longrightarrow>
             length (buf dec') < length (buf dec)" for s
    using less.hyps[of "(advance dec1)\<lparr>tokenState := s\<rparr>" t dec'] adv by simp
  have str: "scan_string (tl (buf dec1)) = Inr (x, rest) \<Longrightarrow> length rest < length (buf dec)" for x rest
    using scan_string_length[of "tl (buf dec1)" x rest] q(2) by simp
  have val: "readValue (buf dec1) = Inr (x, rest) \<Longrightarrow> length rest < length (buf dec)" for x rest
    using readValue_length[of "buf dec1" x rest] le by simp
  from less.prems have "Token dec = Inr (t, dec')" .
  then show ?case
    unfolding Token_unfold[OF p]
    apply (simp only: split: if_splits)
    using adv rec str val
    by (auto simp: push_def pop_def split: list.splits sum.splits)
qed


subsection \<open>The decoder of the package\<close>

text \<open>
  A scalar token is the value itself (\<open>return t, nil\<close> in \<open>handledelim\<close>).
\<close>

fun token_value :: "json_Token \<Rightarrow> val" where
  "token_value (TBool b) = VBool b"
| "token_value (TNumber x) = VNumber x"
| "token_value (TString x) = VString x"
| "token_value TNull = VNil"
| "token_value (Delim c) = VNil"

text \<open>
  The end of \<open>parseobject\<close> and of \<open>parsearray\<close>, after the loop: the next token must
  be the closing delimiter.
\<close>

definition expect_close :: "char \<Rightarrow> error \<Rightarrow> Decoder \<Rightarrow> error + Decoder" where
  "expect_close c e dec =
     (case Token dec of
        Inl err \<Rightarrow> Inl err
      | Inr (t, dec1) \<Rightarrow> if t \<noteq> Delim c then Inl e else Inr dec1)"

text \<open>
  \<open>parseobject\<close>, \<open>parsearray\<close> and \<open>handledelim\<close>. Each loop is a recursion on the
  decoder; \<open>parsearray\<close> takes the slice built so far, which \<open>handledelim\<close> starts empty.
  \<open>parseobject\<close> returns its receiver with the result, since \<open>Set\<close> has changed it in
  place by then. When the token after a key fails with \<open>io.EOF\<close> the loop is left by
  \<open>break\<close> and the closing token is read.
\<close>

function parseobject :: "Map \<Rightarrow> Decoder \<Rightarrow> Map \<times> (error + Decoder)"
  and parsearray :: "val list \<Rightarrow> Decoder \<Rightarrow> error + (val list \<times> Decoder)"
  and handledelim :: "json_Token \<Rightarrow> Decoder \<Rightarrow> error + (val \<times> Decoder)" where
  "parseobject om dec =
     (if More dec then
        (case Token dec of
           Inl err \<Rightarrow> (om, Inl err)
         | Inr (t, dec1) \<Rightarrow>
             (case t of
                TString key \<Rightarrow>
                  (case Token dec1 of
                     Inl err \<Rightarrow>
                       if err = EOF then (om, expect_close (CHR ''}'') ExpectObjectClose dec1)
                       else (om, Inl err)
                   | Inr (t2, dec2) \<Rightarrow>
                       (case handledelim t2 dec2 of
                          Inl err \<Rightarrow> (om, Inl err)
                        | Inr (value, dec3) \<Rightarrow> parseobject (Set om key value) dec3))
              | _ \<Rightarrow> (om, Inl ExpectStringKey)))
      else (om, expect_close (CHR ''}'') ExpectObjectClose dec))"
| "parsearray arr dec =
     (if More dec then
        (case Token dec of
           Inl err \<Rightarrow> Inl err
         | Inr (t, dec1) \<Rightarrow>
             (case handledelim t dec1 of
                Inl err \<Rightarrow> Inl err
              | Inr (value, dec2) \<Rightarrow> parsearray (arr @ [value]) dec2))
      else
        (case expect_close (CHR '']'') ExpectArrayClose dec of
           Inl err \<Rightarrow> Inl err
         | Inr dec1 \<Rightarrow> Inr (arr, dec1)))"
| "handledelim t dec =
     (case t of
        Delim delim \<Rightarrow>
          if delim = CHR ''{'' then
            (case parseobject NewMap dec of
               (om, Inl err) \<Rightarrow> Inl err
             | (om, Inr dec1) \<Rightarrow> Inr (VMap (Entries om), dec1))
          else if delim = CHR ''['' then
            (case parsearray [] dec of
               Inl err \<Rightarrow> Inl err
             | Inr (value, dec1) \<Rightarrow> Inr (VArr value, dec1))
          else Inl UnexpectedDelimiter
      | _ \<Rightarrow> Inr (token_value t, dec))"
  by pat_completeness auto

lemma expect_close_length:
  "expect_close c e dec = Inr dec' \<Longrightarrow> length (buf dec') < length (buf dec)"
  by (auto simp: expect_close_def split: sum.splits if_splits dest: Token_length)

lemma parse_dom_length:
  "parseobject_parsearray_handledelim_dom (Inl (om, dec)) \<Longrightarrow>
     (\<forall>om' dec'. parseobject om dec = (om', Inr dec') \<longrightarrow> length (buf dec') \<le> length (buf dec))"
  "parseobject_parsearray_handledelim_dom (Inr (Inl (arr, dec))) \<Longrightarrow>
     (\<forall>arr' dec'. parsearray arr dec = Inr (arr', dec') \<longrightarrow> length (buf dec') \<le> length (buf dec))"
  "parseobject_parsearray_handledelim_dom (Inr (Inr (t, dec))) \<Longrightarrow>
     (\<forall>v dec'. handledelim t dec = Inr (v, dec') \<longrightarrow> length (buf dec') \<le> length (buf dec))"
proof (induction om dec and arr dec and t dec rule: parseobject_parsearray_handledelim.pinduct)
  case (1 om dec)
  show ?case
  proof (intro allI impI)
    fix om' dec' assume a: "parseobject om dec = (om', Inr dec')"
    show "length (buf dec') \<le> length (buf dec)"
    proof (cases "More dec")
      case False
      then show ?thesis using a expect_close_length[of _ _ dec dec']
        by (auto simp: parseobject.psimps[OF 1(1)] dest!: expect_close_length)
    next
      case True
      from a True obtain t dec1 where t: "Token dec = Inr (t, dec1)"
        by (auto simp: parseobject.psimps[OF 1(1)] split: sum.splits)
      from a True t obtain key where k: "t = TString key"
        by (auto simp: parseobject.psimps[OF 1(1)] split: json_Token.splits)
      show ?thesis
      proof (cases "Token dec1")
        case (Inl err)
        then show ?thesis
          using a True t k Token_length[OF t]
          by (auto simp: parseobject.psimps[OF 1(1)] split: if_splits dest!: expect_close_length)
      next
        case (Inr p)
        then obtain t2 dec2 where t2: "Token dec1 = Inr (t2, dec2)" by (cases p) auto
        from a True t k t2 obtain v dec3 where h: "handledelim t2 dec2 = Inr (v, dec3)"
          and r: "parseobject (Set om key v) dec3 = (om', Inr dec')"
          by (auto simp: parseobject.psimps[OF 1(1)] split: sum.splits)
        have "length (buf dec3) \<le> length (buf dec2)"
          using 1(2)[OF True t refl k t2 refl] h by blast
        moreover have "length (buf dec') \<le> length (buf dec3)"
          using 1(3)[OF True t refl k t2 refl h refl] r by blast
        ultimately show ?thesis using Token_length[OF t] Token_length[OF t2] by simp
      qed
    qed
  qed
next
  case (2 arr dec)
  show ?case
  proof (intro allI impI)
    fix arr' dec' assume a: "parsearray arr dec = Inr (arr', dec')"
    show "length (buf dec') \<le> length (buf dec)"
    proof (cases "More dec")
      case False
      then show ?thesis using a
        by (auto simp: parsearray.psimps[OF 2(1)] split: sum.splits dest!: expect_close_length)
    next
      case True
      from a True obtain t dec1 where t: "Token dec = Inr (t, dec1)"
        by (auto simp: parsearray.psimps[OF 2(1)] split: sum.splits)
      from a True t obtain v dec2 where h: "handledelim t dec1 = Inr (v, dec2)"
        and r: "parsearray (arr @ [v]) dec2 = Inr (arr', dec')"
        by (auto simp: parsearray.psimps[OF 2(1)] split: sum.splits)
      have "length (buf dec2) \<le> length (buf dec1)"
        using 2(2)[OF True t refl] h by blast
      moreover have "length (buf dec') \<le> length (buf dec2)"
        using 2(3)[OF True t refl h refl] r by blast
      ultimately show ?thesis using Token_length[OF t] by simp
    qed
  qed
next
  case (3 t dec)
  show ?case
  proof (intro allI impI)
    fix v dec' assume a: "handledelim t dec = Inr (v, dec')"
    show "length (buf dec') \<le> length (buf dec)"
    proof (cases t)
      case (Delim delim)
      consider (obj) "delim = CHR ''{''" | (arr) "delim \<noteq> CHR ''{''" "delim = CHR ''[''"
        | (other) "delim \<noteq> CHR ''{''" "delim \<noteq> CHR ''[''" by blast
      then show ?thesis
      proof cases
        case obj
        then obtain om where "parseobject NewMap dec = (om, Inr dec')"
          using a[unfolded handledelim.psimps[OF 3(1)]] Delim obj
          by (auto split: prod.splits sum.splits)
        then show ?thesis using 3(2)[OF Delim obj] by blast
      next
        case arr
        then obtain x where "parsearray [] dec = Inr (x, dec')"
          using a[unfolded handledelim.psimps[OF 3(1)]] Delim arr
          by (auto split: prod.splits sum.splits)
        then show ?thesis using 3(3)[OF Delim arr] by blast
      next
        case other
        then show ?thesis using a[unfolded handledelim.psimps[OF 3(1)]] Delim by simp
      qed
    qed (use a[unfolded handledelim.psimps[OF 3(1)]] in simp_all)
  qed
qed

lemma handledelim_dom_length:
  "handledelim t dec = Inr (v, dec') \<Longrightarrow> parseobject_parsearray_handledelim_dom (Inr (Inr (t, dec)))
   \<Longrightarrow> length (buf dec') \<le> length (buf dec)"
  using parse_dom_length(3) by blast

termination parseobject
  apply (relation "measure (\<lambda>x. case x of
          Inl (om, dec) \<Rightarrow> 2 * length (buf dec)
        | Inr (Inl (arr, dec)) \<Rightarrow> 2 * length (buf dec)
        | Inr (Inr (t, dec)) \<Rightarrow> 2 * length (buf dec) + 1)")
  by (auto dest!: Token_length handledelim_dom_length)

declare parseobject.simps [simp del] parsearray.simps [simp del] handledelim.simps [simp del]

definition UnmarshalJSON :: "Map \<Rightarrow> string \<Rightarrow> Map \<times> error option" where
  "UnmarshalJSON om data =
     (case Token (NewDecoder data) of
        Inl err \<Rightarrow> (om, Some err)
      | Inr (t, dec) \<Rightarrow>
          if t \<noteq> Delim (CHR ''{'') then (om, Some ExpectObjectOpen)
          else
            (case parseobject om dec of
               (om1, Inl err) \<Rightarrow> (om1, Some err)
             | (om1, Inr dec1) \<Rightarrow>
                 (case Token dec1 of
                    Inl err \<Rightarrow> if err \<noteq> EOF then (om1, Some ExpectEndOfObject) else (om1, None)
                  | Inr _ \<Rightarrow> (om1, Some ExpectEndOfObject))))"



lemma parse_length_all:
  "(\<forall>om' dec'. parseobject om dec = (om', Inr dec') \<longrightarrow> length (buf dec') \<le> length (buf dec))"
  "(\<forall>arr' dec'. parsearray arr dec = Inr (arr', dec') \<longrightarrow> length (buf dec') \<le> length (buf dec))"
  "(\<forall>v dec'. handledelim t dec = Inr (v, dec') \<longrightarrow> length (buf dec') \<le> length (buf dec))"
proof (induction om dec and arr dec and t dec rule: parseobject_parsearray_handledelim.induct)
  case (1 om dec)
  show ?case
  proof (intro allI impI)
    fix om' dec' assume a: "parseobject om dec = (om', Inr dec')"
    show "length (buf dec') \<le> length (buf dec)"
    proof (cases "More dec")
      case False
      then show ?thesis using a expect_close_length[of _ _ dec dec']
        by (auto simp: parseobject.simps[of om dec] dest!: expect_close_length)
    next
      case True
      from a True obtain t dec1 where t: "Token dec = Inr (t, dec1)"
        by (auto simp: parseobject.simps[of om dec] split: sum.splits)
      from a True t obtain key where k: "t = TString key"
        by (auto simp: parseobject.simps[of om dec] split: json_Token.splits)
      show ?thesis
      proof (cases "Token dec1")
        case (Inl err)
        then show ?thesis
          using a True t k Token_length[OF t]
          by (auto simp: parseobject.simps[of om dec] split: if_splits dest!: expect_close_length)
      next
        case (Inr p)
        then obtain t2 dec2 where t2: "Token dec1 = Inr (t2, dec2)" by (cases p) auto
        from a True t k t2 obtain v dec3 where h: "handledelim t2 dec2 = Inr (v, dec3)"
          and r: "parseobject (Set om key v) dec3 = (om', Inr dec')"
          by (auto simp: parseobject.simps[of om dec] split: sum.splits)
        have "length (buf dec3) \<le> length (buf dec2)"
          using 1(1)[OF True t refl k t2 refl] h by blast
        moreover have "length (buf dec') \<le> length (buf dec3)"
          using 1(2)[OF True t refl k t2 refl h refl] r by blast
        ultimately show ?thesis using Token_length[OF t] Token_length[OF t2] by simp
      qed
    qed
  qed
next
  case (2 arr dec)
  show ?case
  proof (intro allI impI)
    fix arr' dec' assume a: "parsearray arr dec = Inr (arr', dec')"
    show "length (buf dec') \<le> length (buf dec)"
    proof (cases "More dec")
      case False
      then show ?thesis using a
        by (auto simp: parsearray.simps[of arr dec] split: sum.splits dest!: expect_close_length)
    next
      case True
      from a True obtain t dec1 where t: "Token dec = Inr (t, dec1)"
        by (auto simp: parsearray.simps[of arr dec] split: sum.splits)
      from a True t obtain v dec2 where h: "handledelim t dec1 = Inr (v, dec2)"
        and r: "parsearray (arr @ [v]) dec2 = Inr (arr', dec')"
        by (auto simp: parsearray.simps[of arr dec] split: sum.splits)
      have "length (buf dec2) \<le> length (buf dec1)"
        using 2(1)[OF True t refl] h by blast
      moreover have "length (buf dec') \<le> length (buf dec2)"
        using 2(2)[OF True t refl h refl] r by blast
      ultimately show ?thesis using Token_length[OF t] by simp
    qed
  qed
next
  case (3 t dec)
  show ?case
  proof (intro allI impI)
    fix v dec' assume a: "handledelim t dec = Inr (v, dec')"
    show "length (buf dec') \<le> length (buf dec)"
    proof (cases t)
      case (Delim delim)
      consider (obj) "delim = CHR ''{''" | (arr) "delim \<noteq> CHR ''{''" "delim = CHR ''[''"
        | (other) "delim \<noteq> CHR ''{''" "delim \<noteq> CHR ''[''" by blast
      then show ?thesis
      proof cases
        case obj
        then obtain om where "parseobject NewMap dec = (om, Inr dec')"
          using a[unfolded handledelim.simps[of t dec]] Delim obj
          by (auto split: prod.splits sum.splits)
        then show ?thesis using 3(1)[OF Delim obj] by blast
      next
        case arr
        then obtain x where "parsearray [] dec = Inr (x, dec')"
          using a[unfolded handledelim.simps[of t dec]] Delim arr
          by (auto split: prod.splits sum.splits)
        then show ?thesis using 3(2)[OF Delim arr] by blast
      next
        case other
        then show ?thesis using a[unfolded handledelim.simps[of t dec]] Delim by simp
      qed
    qed (use a[unfolded handledelim.simps[of t dec]] in simp_all)
  qed
qed

lemma parse_length:
  "parseobject om dec = (om', Inr dec') \<Longrightarrow> length (buf dec') \<le> length (buf dec)"
  "parsearray arr dec = Inr (arr', dec') \<Longrightarrow> length (buf dec') \<le> length (buf dec)"
  "handledelim t dec = Inr (v, dec') \<Longrightarrow> length (buf dec') \<le> length (buf dec)"
  using parse_length_all(1)[of om dec] parse_length_all(2)[of arr dec] parse_length_all(3)[of t dec]
  by blast+

text \<open>
  The members an object parse reads from the decoder, in input order, up to the closing
  brace or the first error, with the result of the parse. It is \<open>parseobject\<close> without a
  receiver.
\<close>

function object_members :: "Decoder \<Rightarrow> KVPair list \<times> (error + Decoder)" where
  "object_members dec =
     (if More dec then
        (case Token dec of
           Inl err \<Rightarrow> ([], Inl err)
         | Inr (t, dec1) \<Rightarrow>
             (case t of
                TString key \<Rightarrow>
                  (case Token dec1 of
                     Inl err \<Rightarrow>
                       if err = EOF then ([], expect_close (CHR ''}'') ExpectObjectClose dec1)
                       else ([], Inl err)
                   | Inr (t2, dec2) \<Rightarrow>
                       (case handledelim t2 dec2 of
                          Inl err \<Rightarrow> ([], Inl err)
                        | Inr (value, dec3) \<Rightarrow>
                            (case object_members dec3 of (ps, r) \<Rightarrow> ((key, value) # ps, r))))
              | _ \<Rightarrow> ([], Inl ExpectStringKey)))
      else ([], expect_close (CHR ''}'') ExpectObjectClose dec))"
  by pat_completeness auto
termination
  by (relation "measure (\<lambda>dec. length (buf dec))")
     (auto dest!: Token_length parse_length(3))

declare object_members.simps [simp del]

definition Set_all :: "Map \<Rightarrow> KVPair list \<Rightarrow> Map" where
  "Set_all om pairs = foldl (\<lambda>om pair. Set om (fst pair) (snd pair)) om pairs"

lemma Set_all_Nil [simp]: "Set_all om [] = om"
  by (simp add: Set_all_def)

lemma Set_all_Cons [simp]: "Set_all om (p # ps) = Set_all (Set om (fst p) (snd p)) ps"
  by (simp add: Set_all_def)

lemma parseobject_members:
  "parseobject om dec = (Set_all om (fst (object_members dec)), snd (object_members dec))"
proof (induction dec arbitrary: om rule: object_members.induct)
  case (1 dec)
  show ?case
  proof (cases "More dec")
    case False
    then show ?thesis
      by (simp add: parseobject.simps[of om dec] object_members.simps[of dec])
  next
    case True
    show ?thesis
    proof (cases "Token dec")
      case (Inl err)
      then show ?thesis using True
        by (simp add: parseobject.simps[of om dec] object_members.simps[of dec])
    next
      case (Inr p)
      then obtain t dec1 where t: "Token dec = Inr (t, dec1)" by (cases p) auto
      show ?thesis
      proof (cases t)
        case (TString key)
        show ?thesis
        proof (cases "Token dec1")
          case (Inl err)
          then show ?thesis using True t TString
            by (simp add: parseobject.simps[of om dec] object_members.simps[of dec])
        next
          case (Inr q)
          then obtain t2 dec2 where t2: "Token dec1 = Inr (t2, dec2)" by (cases q) auto
          show ?thesis
          proof (cases "handledelim t2 dec2")
            case (Inl err)
            then show ?thesis using True t TString t2
              by (simp add: parseobject.simps[of om dec] object_members.simps[of dec])
          next
            case (Inr r)
            then obtain v dec3 where h: "handledelim t2 dec2 = Inr (v, dec3)" by (cases r) auto
            from "1.IH"[OF True t refl TString t2 refl h refl, of "Set om key v"]
            show ?thesis using True t TString t2 h
              by (simp add: parseobject.simps[of om dec] object_members.simps[of dec]
                       split: prod.splits)
          qed
        qed
      qed (use True t in \<open>simp_all add: parseobject.simps[of om dec] object_members.simps[of dec]\<close>)
    qed
  qed
qed


text \<open>The members of the object that \<open>UnmarshalJSON\<close> reads from its input.\<close>

definition input_members :: "string \<Rightarrow> KVPair list" where
  "input_members data =
     (case Token (NewDecoder data) of
        Inl err \<Rightarrow> []
      | Inr (t, dec) \<Rightarrow> if t \<noteq> Delim (CHR ''{'') then [] else fst (object_members dec))"

text \<open>
  The keys of a sequence of \<open>Set\<close> calls that are new to a map whose keys are \<open>seen\<close>,
  each at its first occurrence.
\<close>

fun fresh_keys :: "string list \<Rightarrow> string list \<Rightarrow> string list" where
  "fresh_keys seen [] = []"
| "fresh_keys seen (k # ks) =
     (if k \<in> set seen then fresh_keys seen ks else k # fresh_keys (seen @ [k]) ks)"

lemma UnmarshalJSON_members:
  "fst (UnmarshalJSON om data) = Set_all om (input_members data)"
  by (auto simp: UnmarshalJSON_def input_members_def parseobject_members
           split: sum.splits prod.splits if_splits)

lemma UnmarshalJSON_error_receiver:
  "snd (UnmarshalJSON om data) = snd (UnmarshalJSON NewMap data)"
  by (auto simp: UnmarshalJSON_def parseobject_members split: sum.splits prod.splits if_splits)

lemma wf_Set_all: "wf om \<Longrightarrow> wf (Set_all om ps)"
  by (simp add: Set_all_def wf_foldl_Set)

lemma wf_order_Has: "wf om \<Longrightarrow> k \<in> set (order om) \<longleftrightarrow> m om k \<noteq> None"
  by (simp add: wf_def bijection_def Has_def)

lemma order_Set_all:
  "wf om \<Longrightarrow> order (Set_all om ps) = order om @ fresh_keys (order om) (map fst ps)"
proof (induction ps arbitrary: om)
  case Nil
  show ?case by simp
next
  case (Cons p ps)
  have w: "wf (Set om (fst p) (snd p))" using Cons.prems by (rule wf_Set)
  show ?case
    using Cons.IH[OF w] wf_order_Has[OF Cons.prems, of "fst p"]
    by (auto simp: order_Set)
qed

lemma m_Set_all: "m (Set_all om ps) = m om ++ map_of (rev ps)"
proof (induction ps arbitrary: om)
  case Nil
  show ?case by simp
next
  case (Cons p ps)
  have "(m om)(fst p \<mapsto> snd p) ++ map_of (rev ps) = m om ++ map_of (rev ps @ [p])"
    by (rule ext) (auto simp: map_add_def split: option.splits)
  moreover have "m (Set_all om (p # ps)) = (m om)(fst p \<mapsto> snd p) ++ map_of (rev ps)"
    using Cons.IH[of "Set om (fst p) (snd p)"] by (simp only: Set_all_Cons m_Set)
  ultimately show ?case by simp
qed

lemma Get_Set_all:
  "Get (Set_all om ps) k = (case map_of (rev ps) k of None \<Rightarrow> Get om k | Some v \<Rightarrow> v)"
  by (simp add: Get_def m_Set_all map_add_def split: option.splits)

lemma Has_Set_all: "Has (Set_all om ps) k \<longleftrightarrow> Has om k \<or> k \<in> fst ` set ps"
  by (auto simp: Has_def m_Set_all map_add_def map_of_eq_None_iff split: option.splits)
     (metis (no_types) image_eqI map_of_eq_None_iff set_rev option.distinct(1))+

lemma fresh_keys_disjoint: "set (fresh_keys seen ks) \<inter> set seen = {}"
  by (induction seen ks rule: fresh_keys.induct) auto


subsection \<open>The invariant is preserved\<close>

text \<open>
  Claim C5. \<open>NewMap\<close>, \<open>NewMapFromKVPairs\<close>, \<open>Set\<close>, \<open>Delete\<close> and \<open>UnmarshalJSON\<close> keep
  the invariant, under which the keys of the value mapping and the keys of the order
  sequence are the same and each occurs once in the sequence; \<open>Delete\<close> does not panic
  on such a map. After \<open>Delete(k)\<close> of a key that was present, \<open>Has(k)\<close> is false and a
  traversal from \<open>EntriesIter\<close> does not yield \<open>k\<close>.
\<close>

theorem operations_preserve_bijection:
  "wf NewMap \<and>
   wf (NewMapFromKVPairs ps) \<and>
   (wf om \<longrightarrow> wf (Set om k v)) \<and>
   (wf om \<longrightarrow> (\<exists>r om'. Delete om k = Inr (r, om') \<and> wf om')) \<and>
   (wf om \<longrightarrow> wf (fst (UnmarshalJSON om data))) \<and>
   (wf om \<longrightarrow> distinct (order om) \<and> (\<forall>k. Has om k \<longleftrightarrow> k \<in> set (order om))) \<and>
   (wf om \<and> Has om k \<longrightarrow>
      (\<exists>v om'. Delete om k = Inr ((v, True), om') \<and> \<not> Has om' k \<and>
         k \<notin> set (map fst (Entries om'))))"
proof -
  have d: "\<exists>r om'. Delete om k = Inr (r, om') \<and> wf om'" if "wf om"
  proof (cases "m om k")
    case None
    then show ?thesis using that by (auto simp: Delete_absent)
  next
    case (Some x)
    then show ?thesis using Delete_wf[OF that Some] by blast
  qed
  have e: "\<exists>v om'. Delete om k = Inr ((v, True), om') \<and> \<not> Has om' k \<and>
         k \<notin> set (map fst (Entries om'))" if "wf om" "Has om k"
  proof -
    from that(2) obtain x where "m om k = Some x" by (auto simp: Has_def)
    from Delete_wf[OF that(1) this] show ?thesis by (auto simp: map_fst_Entries)
  qed
  show ?thesis
    using d e wf_NewMap wf_NewMapFromKVPairs wf_Set wf_Set_all[of om "input_members data"]
    by (auto simp: UnmarshalJSON_members wf_def bijection_def)
qed

theorem operations_preserve_bijection_witness:
  "wf (Set NewMap ''a'' VNil) \<and> Has (Set NewMap ''a'' VNil) ''a'' \<and>
   wf (Set (Set NewMap ''a'' VNil) ''b'' VNil) \<and>
   wf (fst (UnmarshalJSON (Set NewMap ''a'' VNil) ''{\"b\":1}'')) \<and>
   (\<exists>v om'. Delete (Set NewMap ''a'' VNil) ''a'' = Inr ((v, True), om') \<and> \<not> Has om' ''a'' \<and>
       ''a'' \<notin> set (map fst (Entries om')))"
proof -
  have w0: "wf NewMap"
    using operations_preserve_bijection[of "[]" NewMap "''a''" VNil "[]"] by blast
  have w: "wf (Set NewMap ''a'' VNil)"
    using w0 operations_preserve_bijection[of "[]" NewMap "''a''" VNil "[]"] by blast
  have h: "Has (Set NewMap ''a'' VNil) ''a''" by (simp add: Has_def)
  show ?thesis
    using w h operations_preserve_bijection[of "[]" "Set NewMap ''a'' VNil" "''b''" VNil "''{\"b\":1}''"]
      operations_preserve_bijection[of "[]" "Set NewMap ''a'' VNil" "''a''" VNil "''{\"b\":1}''"]
    by blast
qed

subsection \<open>Duplicate keys in the input\<close>

text \<open>
  Claim C6. The decoder inserts the members of the input object with \<open>Set\<close>, in input
  order: a key stands where it first occurred, its value is that of its last occurrence,
  and whether \<open>UnmarshalJSON\<close> returns an error does not depend on what the receiver
  holds, so a repeated key raises none. Decoding \<open>{"a":1,"a":2}\<close> gives no error and a
  map of length 1 whose entry is \<open>a\<close> with the number \<open>2\<close>.
\<close>

theorem decode_duplicate_keys:
  "fst (UnmarshalJSON NewMap data) = Set_all NewMap (input_members data) \<and>
   order (fst (UnmarshalJSON NewMap data)) = fresh_keys [] (map fst (input_members data)) \<and>
   Get (fst (UnmarshalJSON NewMap data)) k =
     (case map_of (rev (input_members data)) k of None \<Rightarrow> VNil | Some v \<Rightarrow> v) \<and>
   snd (UnmarshalJSON om data) = snd (UnmarshalJSON NewMap data) \<and>
   snd (UnmarshalJSON NewMap ''{\"a\":1,\"a\":2}'') = None \<and>
   Len (fst (UnmarshalJSON NewMap ''{\"a\":1,\"a\":2}'')) = 1 \<and>
   Entries (fst (UnmarshalJSON NewMap ''{\"a\":1,\"a\":2}'')) = [(''a'', VNumber ''2'')]"
proof -
  have a: "order (fst (UnmarshalJSON NewMap data)) = fresh_keys [] (map fst (input_members data))"
    using order_Set_all[OF wf_NewMap, of "input_members data"]
    by (simp add: UnmarshalJSON_members) (simp add: order_def NewMap_def)
  have b: "Get (fst (UnmarshalJSON NewMap data)) k =
     (case map_of (rev (input_members data)) k of None \<Rightarrow> VNil | Some v \<Rightarrow> v)"
  proof -
    have "Get NewMap k = VNil" by (simp add: Get_def NewMap_def)
    then show ?thesis
      by (simp add: UnmarshalJSON_members Get_Set_all split: option.splits)
  qed
  have c: "snd (UnmarshalJSON NewMap ''{\"a\":1,\"a\":2}'') = None" by code_simp
  have d: "Len (fst (UnmarshalJSON NewMap ''{\"a\":1,\"a\":2}'')) = 1" by code_simp
  have e: "Entries (fst (UnmarshalJSON NewMap ''{\"a\":1,\"a\":2}'')) = [(''a'', VNumber ''2'')]"
    by code_simp
  show ?thesis
    using a b c d e UnmarshalJSON_members[of NewMap data] UnmarshalJSON_error_receiver[of om data]
    by simp
qed

subsection \<open>Decoding into a map that has entries\<close>

text \<open>
  Claim C10. \<open>UnmarshalJSON\<close> does not reset its receiver. When it succeeds on a receiver
  that satisfies the invariant, the keys the receiver had keep their places at the front
  of the order sequence, the keys of the input that are new follow them in the order of
  their first occurrence, and a key the receiver had keeps its value unless the input
  has that key, in which case it takes the value of the last occurrence.
\<close>

theorem decode_keeps_receiver_entries:
  "wf om \<and> snd (UnmarshalJSON om data) = None \<longrightarrow>
     fst (UnmarshalJSON om data) = Set_all om (input_members data) \<and>
     order (fst (UnmarshalJSON om data)) =
       order om @ fresh_keys (order om) (map fst (input_members data)) \<and>
     set (fresh_keys (order om) (map fst (input_members data))) \<inter> set (order om) = {} \<and>
     (\<forall>k. Has om k \<longrightarrow>
        Has (fst (UnmarshalJSON om data)) k \<and>
        Get (fst (UnmarshalJSON om data)) k =
          (case map_of (rev (input_members data)) k of None \<Rightarrow> Get om k | Some v \<Rightarrow> v)) \<and>
     (\<forall>k \<in> fst ` set (input_members data). Has (fst (UnmarshalJSON om data)) k)"
  by (simp add: UnmarshalJSON_members order_Set_all fresh_keys_disjoint Get_Set_all Has_Set_all)

theorem decode_keeps_receiver_entries_witness:
  "wf (Set (Set NewMap ''x'' (VBool True)) ''y'' VNil) \<and>
   snd (UnmarshalJSON (Set (Set NewMap ''x'' (VBool True)) ''y'' VNil) ''{\"a\":1,\"y\":2}'') = None \<and>
   order (fst (UnmarshalJSON (Set (Set NewMap ''x'' (VBool True)) ''y'' VNil) ''{\"a\":1,\"y\":2}'')) =
     order (Set (Set NewMap ''x'' (VBool True)) ''y'' VNil) @
       fresh_keys (order (Set (Set NewMap ''x'' (VBool True)) ''y'' VNil))
         (map fst (input_members ''{\"a\":1,\"y\":2}'')) \<and>
   Entries (fst (UnmarshalJSON (Set (Set NewMap ''x'' (VBool True)) ''y'' VNil) ''{\"a\":1,\"y\":2}'')) =
     [(''x'', VBool True), (''y'', VNumber ''2''), (''a'', VNumber ''1'')]"
proof -
  have w: "wf (Set (Set NewMap ''x'' (VBool True)) ''y'' VNil)"
    by (intro wf_Set wf_NewMap)
  have n: "snd (UnmarshalJSON (Set (Set NewMap ''x'' (VBool True)) ''y'' VNil) ''{\"a\":1,\"y\":2}'') = None"
    by code_simp
  have e: "Entries (fst (UnmarshalJSON (Set (Set NewMap ''x'' (VBool True)) ''y'' VNil) ''{\"a\":1,\"y\":2}'')) =
     [(''x'', VBool True), (''y'', VNumber ''2''), (''a'', VNumber ''1'')]"
    by code_simp
  show ?thesis
    using w n e
      decode_keeps_receiver_entries[of "Set (Set NewMap ''x'' (VBool True)) ''y'' VNil"
        "''{\"a\":1,\"y\":2}''"]
    by blast
qed

end
